theory Spec2Isabelle
  imports Main "HOL-Library.Sublist"
begin

section \<open>Text and pattern matching\<close>

text \<open>
  A text is a sequence of code units, modelled as a \<^typ>\<open>string\<close>. The three patterns
  of the program inspect ASCII characters only; every other code unit is opaque to them.

  \<open>exec_lit pat md i\<close> is the search a regular expression made of the literal \<open>pat\<close>
  performs on \<open>md\<close> from \<open>lastIndex = i\<close>: the start positions \<open>i, i + 1, \<dots>, length md\<close>
  are tried in turn and the first one where the literal matches is the index of the match.
\<close>

function exec_lit :: "string \<Rightarrow> string \<Rightarrow> nat \<Rightarrow> nat option" where
  "exec_lit pat md i =
     (if length md < i then None
      else if prefix pat (drop i md) then Some i
      else exec_lit pat md (Suc i))"
  by pat_completeness auto
termination
  by (relation "measure (\<lambda>(pat, md, i). Suc (length md) - i)") auto

text \<open>
  \<open>md.match(/pat/g)\<close>: starting with \<open>lastIndex = 0\<close>, every match is appended to the
  array and the search resumes at the end of the match (one position further after an
  empty match). The result is \<open>null\<close> when nothing matched.
\<close>

function match_loop :: "string \<Rightarrow> string \<Rightarrow> nat \<Rightarrow> string list \<Rightarrow> string list" where
  "match_loop pat md lastIndex A =
     (case exec_lit pat md lastIndex of
        None \<Rightarrow> A
      | Some i \<Rightarrow>
          match_loop pat md (if pat = [] then Suc i else i + length pat) (A @ [pat]))"
  by pat_completeness auto
termination
proof (relation "measure (\<lambda>(pat, md, lastIndex, A). Suc (length md) - lastIndex)")
  show "wf (measure (\<lambda>(pat, md, lastIndex, A). Suc (length md) - lastIndex))"
    by simp
next
  fix pat md :: string and lastIndex :: nat and A :: "string list" and i :: nat
  assume found: "exec_lit pat md lastIndex = Some i"
  have "exec_lit pat md k = Some i \<Longrightarrow> k \<le> i \<and> i \<le> length md" for k
  proof (induction pat md k rule: exec_lit.induct)
    case (1 pat md k)
    then show ?case
      by (cases "length md < k"; cases "prefix pat (drop k md)") fastforce+
  qed
  with found have "lastIndex \<le> i \<and> i \<le> length md"
    by blast
  then show "((pat, md, if pat = [] then Suc i else i + length pat, A @ [pat]),
              (pat, md, lastIndex, A))
             \<in> measure (\<lambda>(pat, md, lastIndex, A). Suc (length md) - lastIndex)"
    by (cases pat) auto
qed

definition match_g :: "string \<Rightarrow> string \<Rightarrow> string list option" where
  "match_g pat md =
     (let A = match_loop pat md 0 [] in if A = [] then None else Some A)"

section \<open>The safety predicate\<close>

text \<open>
  \<^verbatim>\<open>
  function isBalanced(md: string): boolean {
    const fences = (md.match(/```/g) || []).length
    const math   = (md.match(/\$\$/g)  || []).length
    return fences % 2 === 0 && math % 2 === 0
  }
  \<close>
\<close>

definition isBalanced :: "string \<Rightarrow> bool" where
  "isBalanced md =
     (let fences = length (case match_g ''```'' md of None \<Rightarrow> [] | Some A \<Rightarrow> A);
          math = length (case match_g ''$$'' md of None \<Rightarrow> [] | Some A \<Rightarrow> A)
      in fences mod 2 = 0 \<and> math mod 2 = 0)"

text \<open>
  The specification's count of a delimiter in a text: the text is read from the left,
  and each occurrence found is counted and stepped over.
\<close>

function occurrences :: "string \<Rightarrow> string \<Rightarrow> nat" where
  "occurrences d s =
     (if d = [] \<or> s = [] then 0
      else if prefix d s then Suc (occurrences d (drop (length d) s))
      else occurrences d (tl s))"
  by pat_completeness auto
termination
  by (relation "measure (\<lambda>(d, s). length s)") auto

section \<open>Messages, segments and the segmenter\<close>

text \<open>
  \<^verbatim>\<open>type Message = { role: 'user' | 'assistant'; content: string }\<close>

  \<^verbatim>\<open>type Segment = { content: string; isThink: boolean }\<close>
\<close>

datatype Role = user | assistant

record Message =
  role :: Role
  content :: string

record Segment =
  content :: string
  isThink :: bool

text \<open>
  The pattern \<^verbatim>\<open>/<think>([\s\S]*?)<\/think>/gi\<close>. Under the flag \<open>i\<close> two code units match
  when their canonical (upper-case) forms agree. The pattern's letters are ASCII, and a
  code unit outside ASCII never canonicalises to an ASCII one, so only the ASCII letters
  need a canonical form here.
\<close>

definition canonicalize :: "char \<Rightarrow> char" where
  "canonicalize c =
     (let n = (of_char c :: nat) in if 97 \<le> n \<and> n \<le> 122 then char_of (n - 32) else c)"

definition ci_prefix :: "string \<Rightarrow> string \<Rightarrow> bool" where
  "ci_prefix pat s = prefix (map canonicalize pat) (map canonicalize s)"

text \<open>
  \<^verbatim>\<open>[\s\S]*?\<close> followed by a literal: the lazy star first tries to consume nothing, then
  one more code unit (any code unit, line breaks included) at a time; the result is the
  number of code units consumed before the literal matches.
\<close>

fun lazy_until :: "string \<Rightarrow> string \<Rightarrow> nat option" where
  "lazy_until pat [] = (if ci_prefix pat [] then Some 0 else None)"
| "lazy_until pat (c # cs) =
     (if ci_prefix pat (c # cs) then Some 0 else map_option Suc (lazy_until pat cs))"

text \<open>
  One attempt of the whole pattern at the start of \<open>s\<close>: the length of the match and
  the text of capture group 1.
\<close>

definition think_at :: "string \<Rightarrow> (nat \<times> string) option" where
  "think_at s =
     (if ci_prefix ''<think>'' s then
        (case lazy_until ''</think>'' (drop 7 s) of
           None \<Rightarrow> None
         | Some k \<Rightarrow> Some (7 + k + 8, take k (drop 7 s)))
      else None)"

text \<open>The value of \<^verbatim>\<open>regex.exec(md)\<close>: \<open>m.index\<close>, \<open>m[0]\<close> and \<open>m[1]\<close>.\<close>

record RegExpExecArray =
  index :: nat
  m0 :: string
  m1 :: string

function exec_think :: "string \<Rightarrow> nat \<Rightarrow> RegExpExecArray option" where
  "exec_think md i =
     (if length md < i then None
      else (case think_at (drop i md) of
              Some (n, g) \<Rightarrow> Some \<lparr>index = i, m0 = take n (drop i md), m1 = g\<rparr>
            | None \<Rightarrow> exec_think md (Suc i)))"
  by pat_completeness auto
termination
  by (relation "measure (\<lambda>(md, i). Suc (length md) - i)") auto

text \<open>\<^verbatim>\<open>md.slice(a, b)\<close> for indices that are not negative.\<close>

definition slice :: "string \<Rightarrow> nat \<Rightarrow> nat \<Rightarrow> string" where
  "slice md a b = take (b - a) (drop a md)"

text \<open>
  \<^verbatim>\<open>
  let last = 0, m: RegExpExecArray | null
  while ((m = regex.exec(md))) {
    if (m.index > last) {
      parts.push({ content: md.slice(last, m.index), isThink: false })
    }
    parts.push({ content: m[1], isThink: true })
    last = m.index + m[0].length
  }
  \<close>
  The loop carries \<open>regex.lastIndex\<close>, which a successful \<open>exec\<close> of a global pattern
  sets to the end of the match, the variable \<open>last\<close> (here \<open>last'\<close>) and the array \<open>parts\<close>.
\<close>

function think_loop :: "string \<Rightarrow> nat \<Rightarrow> nat \<Rightarrow> Segment list \<Rightarrow> nat \<times> Segment list" where
  "think_loop md lastIndex last' parts =
     (case exec_think md lastIndex of
        None \<Rightarrow> (last', parts)
      | Some m \<Rightarrow>
          think_loop md (index m + length (m0 m)) (index m + length (m0 m))
            ((if index m > last'
              then parts @ [\<lparr>content = slice md last' (index m), isThink = False\<rparr>]
              else parts)
             @ [\<lparr>content = m1 m, isThink = True\<rparr>]))"
  by pat_completeness auto
termination
proof (relation "measure (\<lambda>(md, lastIndex, last', parts). Suc (length md) - lastIndex)")
  show "wf (measure (\<lambda>(md, lastIndex, last', parts). Suc (length md) - lastIndex))"
    by simp
next
  fix md :: string and lastIndex last' :: nat and parts :: "Segment list"
    and m :: RegExpExecArray
  assume found: "exec_think md lastIndex = Some m"
  have "exec_think md k = Some m \<Longrightarrow> k \<le> index m \<and> index m \<le> length md \<and> m0 m \<noteq> []" for k
  proof (induction md k rule: exec_think.induct)
    case (1 md k)
    show ?case
    proof (cases "think_at (drop k md)")
      case None
      with "1.prems" "1.IH" show ?thesis
        by (cases "length md < k") fastforce+
    next
      case (Some r)
      obtain n g where r: "r = (n, g)"
        by (cases r)
      from Some r have "ci_prefix ''<think>'' (drop k md)" and "7 \<le> n"
        by (auto simp: think_at_def split: if_splits option.splits)
      then have "drop k md \<noteq> []" and "n \<noteq> 0"
        by (auto simp: ci_prefix_def)
      with Some r "1.prems" show ?thesis
        by (cases "length md < k") auto
    qed
  qed
  with found have "lastIndex \<le> index m \<and> index m \<le> length md \<and> m0 m \<noteq> []"
    by blast
  then show "((md, index m + length (m0 m), index m + length (m0 m),
               (if last' < index m
                then parts @ [\<lparr>content = slice md last' (index m), isThink = False\<rparr>]
                else parts) @ [\<lparr>content = m1 m, isThink = True\<rparr>]),
              (md, lastIndex, last', parts))
             \<in> measure (\<lambda>(md, lastIndex, last', parts). Suc (length md) - lastIndex)"
    by (cases "m0 m") auto
qed

text \<open>
  \<^verbatim>\<open>
  if (last < md.length) {
    parts.push({ content: md.slice(last), isThink: false })
  }
  return parts
  \<close>
\<close>

definition splitThinkBlocks :: "string \<Rightarrow> Segment list" where
  "splitThinkBlocks md =
     (case think_loop md 0 0 [] of
        (last', parts) \<Rightarrow>
          if last' < length md
          then parts @ [\<lparr>content = drop last' md, isThink = False\<rparr>]
          else parts)"

section \<open>Wire events\<close>

text \<open>
  The frames \<^verbatim>\<open>data: {"delta": ...}\<close>, \<^verbatim>\<open>data: [DONE]\<close> and \<^verbatim>\<open>data: {"error": ...}\<close>
  that the relay writes and the client reads. The text of a frame is produced by
  \<^verbatim>\<open>JSON.stringify\<close> and read back by \<^verbatim>\<open>JSON.parse\<close>; the model carries the decoded events.
\<close>

datatype WireEvent = Delta string | Done | Error string

fun is_terminal :: "WireEvent \<Rightarrow> bool" where
  "is_terminal (Delta t) = False"
| "is_terminal Done = True"
| "is_terminal (Error e) = True"

section \<open>The stream renderer\<close>

text \<open>
  The state of the component \<open>Home\<close> that the streaming turn reads and writes:
  \<^verbatim>\<open>
  const [loading, setLoading]                 = useState(false)
  const [fullContent, setFullContent]         = useState('')
  const [renderedContent, setRenderedContent] = useState('')
  \<close>
  Every state update is taken to be applied before the next statement runs. The
  conversation list and the input box are not part of the model.
\<close>

record Home =
  loading :: bool
  fullContent :: string
  renderedContent :: string

definition initial :: Home where
  "initial = \<lparr>loading = False, fullContent = [], renderedContent = []\<rparr>"

text \<open>
  \<^verbatim>\<open>
  setFullContent(prev => {
    const u = prev + delta
    if (isBalanced(u)) setRenderedContent(u)
    return u
  })
  \<close>
\<close>

definition apply_delta :: "string \<Rightarrow> Home \<Rightarrow> Home" where
  "apply_delta delta st =
     (let u = fullContent st @ delta
      in (if isBalanced u then st\<lparr>renderedContent := u\<rparr> else st)\<lparr>fullContent := u\<rparr>)"

text \<open>
  The read loop, frame by frame. \<^verbatim>\<open>[DONE]\<close> and a payload whose \<open>error\<close> is truthy (a
  string that is not empty) set \<open>done\<close> and leave the loop, so the frames after them are
  never looked at. Every other payload is appended as a delta; a payload without a
  \<open>delta\<close> field appends the text of \<open>undefined\<close>.
\<close>

fun read_loop :: "WireEvent list \<Rightarrow> Home \<Rightarrow> Home" where
  "read_loop [] st = st"
| "read_loop (Done # evs) st = st"
| "read_loop (Error e # evs) st =
     (if e \<noteq> [] then st else read_loop evs (apply_delta ''undefined'' st))"
| "read_loop (Delta delta # evs) st = read_loop evs (apply_delta delta st)"

text \<open>
  \<^verbatim>\<open>
  setLoading(true)
  setFullContent('')
  setRenderedContent('')
  \<close>
\<close>

definition begin_turn :: "Home \<Rightarrow> Home" where
  "begin_turn st = st\<lparr>loading := True, fullContent := [], renderedContent := []\<rparr>"

text \<open>\<^verbatim>\<open>!input.trim()\<close>: nothing is left of the input once its white space is trimmed.\<close>

definition is_space :: "char \<Rightarrow> bool" where
  "is_space c \<longleftrightarrow> (of_char c :: nat) \<in> {9, 10, 11, 12, 13, 32, 160}"

definition blank :: "string \<Rightarrow> bool" where
  "blank input \<longleftrightarrow> list_all is_space input"

text \<open>
  \<open>sendMessage\<close> is a closure created by a render of \<open>Home\<close>: inside its body the
  identifier \<open>fullContent\<close> is the constant bound by that render, the value the state
  had when the handler was invoked, and the setters called during the turn do not change
  it. \<open>sendMessage st input body\<close> starts from the state \<open>st\<close> of that render; \<open>body\<close> is
  the sequence of frames of the response, \<open>None\<close> when the response has no body.
  \<^verbatim>\<open>
  if (!input.trim()) return
  ...
  if (!res.body) return setLoading(false)
  ...
  // on finish, flush any remaining balanced content
  setRenderedContent(prev =>
    fullContent && isBalanced(fullContent) ? fullContent : prev
  )
  setLoading(false)
  \<close>
\<close>

definition sendMessage :: "Home \<Rightarrow> string \<Rightarrow> WireEvent list option \<Rightarrow> Home" where
  "sendMessage st input body =
     (if blank input then st
      else (case body of
              None \<Rightarrow> (begin_turn st)\<lparr>loading := False\<rparr>
            | Some evs \<Rightarrow>
                (let st' = read_loop evs (begin_turn st)
                 in st'\<lparr>renderedContent :=
                          (if fullContent st \<noteq> [] \<and> isBalanced (fullContent st)
                           then fullContent st
                           else renderedContent st'),
                        loading := False\<rparr>)))"

section \<open>The relay\<close>

text \<open>
  The provider as the handler sees it: \<open>openai.chat.completions.create\<close> either throws or
  returns a stream; the stream yields parts and then is exhausted or throws. Of a part
  the handler reads \<^verbatim>\<open>part.choices?.[0]?.delta?.content\<close> only, which is a string or absent.
\<close>

datatype Ending = Exhausted | Throws

datatype Upstream = CreateThrows | Stream "string option list" Ending

text \<open>The request: \<open>req.method\<close> and the \<open>messages\<close> of \<open>req.body\<close>.\<close>

record Request =
  req_method :: "string option"
  messages :: "Message list"

text \<open>
  What the handler has done to the response: the status code, the headers it set, the
  JSON body it sent, the frames it wrote, whether it ended the response, and how often
  it has called the provider. Flushing the headers is not modelled.
\<close>

record Response =
  statusCode :: nat
  headers :: "string \<rightharpoonup> string list"
  json :: "(string \<times> string) list option"
  written :: "WireEvent list"
  ended :: bool
  create_calls :: nat

definition fresh :: Response where
  "fresh = \<lparr>statusCode = 200, headers = Map.empty, json = None, written = [],
            ended = False, create_calls = 0\<rparr>"

definition res_write :: "WireEvent \<Rightarrow> Response \<Rightarrow> Response" where
  "res_write ev res = res\<lparr>written := written res @ [ev]\<rparr>"

text \<open>
  \<^verbatim>\<open>
  for await (const part of stream) {
    const delta = part.choices?.[0]?.delta?.content;
    if (delta) {
      res.write(`data: ${JSON.stringify({ delta })}\n\n`);
    }
  }
  \<close>
\<close>

fun for_await :: "string option list \<Rightarrow> Response \<Rightarrow> Response" where
  "for_await [] res = res"
| "for_await (part # parts) res =
     (case part of
        Some delta \<Rightarrow> for_await parts (if delta \<noteq> [] then res_write (Delta delta) res else res)
      | None \<Rightarrow> for_await parts res)"

text \<open>
  \<^verbatim>\<open>
  } catch (e) {
    console.error(e);
    res.write(`data: ${JSON.stringify({ error: "OpenAI API error" })}\n\n`);
    res.end();
  }
  \<close>
\<close>

definition catch_block :: "Response \<Rightarrow> Response" where
  "catch_block res = (res_write (Error ''OpenAI API error'') res)\<lparr>ended := True\<rparr>"

text \<open>
  \<^verbatim>\<open>
  if (req.method !== "POST")
    return res
      .status(405)
      .setHeader("Allow", ["POST"])
      .json({ error: "Method Not Allowed" });
  const { messages } = req.body as { messages: Array<...> };
  res.setHeader("Content-Type", "text/event-stream");
  res.setHeader("Cache-Control", "no-cache, no-transform");
  res.setHeader("Connection", "keep-alive");
  res.flushHeaders();
  try {
    const stream = await openai.chat.completions.create({
      model: process.env.MODEL_NAME!, messages, stream: true,
    });
    for await (const part of stream) { ... }
    res.write(`data: [DONE]\n\n`);
    res.end();
  } catch (e) { ... }
  \<close>
  The provider is the parameter \<open>create\<close>: what the call does for the given messages.
\<close>

definition handler :: "Request \<Rightarrow> (Message list \<Rightarrow> Upstream) \<Rightarrow> Response" where
  "handler req create =
     (if req_method req \<noteq> Some ''POST'' then
        fresh\<lparr>statusCode := 405,
              headers := (headers fresh)(''Allow'' \<mapsto> [''POST'']),
              json := Some [(''error'', ''Method Not Allowed'')],
              ended := True\<rparr>
      else
        (let res = fresh\<lparr>headers := (headers fresh)
                      (''Content-Type'' \<mapsto> [''text/event-stream''],
                       ''Cache-Control'' \<mapsto> [''no-cache, no-transform''],
                       ''Connection'' \<mapsto> [''keep-alive'']),
                    create_calls := 1\<rparr>
         in (case create (messages req) of
               CreateThrows \<Rightarrow> catch_block res
             | Stream parts Throws \<Rightarrow> catch_block (for_await parts res)
             | Stream parts Exhausted \<Rightarrow> (res_write Done (for_await parts res))\<lparr>ended := True\<rparr>)))"

section \<open>Notions of the specification\<close>

text \<open>
  Two texts, or a tag and its spelling in a text, agree up to the letter case the
  pattern ignores.
\<close>

definition ci_equal :: "string \<Rightarrow> string \<Rightarrow> bool" where
  "ci_equal a b \<longleftrightarrow> map canonicalize a = map canonicalize b"

text \<open>The pattern occurs somewhere in the text, in any letter case.\<close>

fun occurs_ci :: "string \<Rightarrow> string \<Rightarrow> bool" where
  "occurs_ci pat [] = ci_prefix pat []"
| "occurs_ci pat (c # cs) = (ci_prefix pat (c # cs) \<or> occurs_ci pat cs)"

text \<open>
  Some opening tag of the text has a closing tag after it (both in any letter case): the
  text holds a think region. An opening tag with no closing tag after it is unterminated.
\<close>

fun has_region :: "string \<Rightarrow> bool" where
  "has_region [] = False"
| "has_region (c # cs) =
     ((ci_prefix ''<think>'' (c # cs) \<and> occurs_ci ''</think>'' (drop 7 (c # cs))) \<or>
      has_region cs)"

text \<open>
  Putting a segment sequence together again: the contents in order, each think segment
  between the tags \<open><think>\<close> and \<open></think>\<close>.
\<close>

fun reinsert :: "Segment list \<Rightarrow> string" where
  "reinsert [] = []"
| "reinsert (seg # segs) =
     (if isThink seg then ''<think>'' @ content seg @ ''</think>'' @ reinsert segs
      else content seg @ reinsert segs)"

text \<open>
  The same with a given spelling of the tag pair for each think segment, in order; where
  the spellings run out the lower-case tags are used.
\<close>

fun reinsert_as :: "(string \<times> string) list \<Rightarrow> Segment list \<Rightarrow> string" where
  "reinsert_as tags [] = []"
| "reinsert_as tags (seg # segs) =
     (if isThink seg then
        (case tags of
           [] \<Rightarrow> ''<think>'' @ content seg @ ''</think>'' @ reinsert_as [] segs
         | (otag, ctag) # tags' \<Rightarrow> otag @ content seg @ ctag @ reinsert_as tags' segs)
      else content seg @ reinsert_as tags segs)"

text \<open>A pair of spellings of the opening and the closing tag.\<close>

definition think_tags :: "string \<times> string \<Rightarrow> bool" where
  "think_tags tag \<longleftrightarrow> ci_equal (fst tag) ''<think>'' \<and> ci_equal (snd tag) ''</think>''"

text \<open>Such a pair, both of whose tags stand somewhere in the text \<open>md\<close>.\<close>

definition tags_in :: "string \<Rightarrow> string \<times> string \<Rightarrow> bool" where
  "tags_in md tag \<longleftrightarrow> think_tags tag \<and>
     (\<exists>i. prefix (fst tag) (drop i md)) \<and> (\<exists>i. prefix (snd tag) (drop i md))"

text \<open>Every opening and closing tag that occurs in the text is spelled in lower case.\<close>

fun lower_tags :: "string \<Rightarrow> bool" where
  "lower_tags [] = True"
| "lower_tags (c # cs) =
     ((ci_prefix ''<think>'' (c # cs) \<longrightarrow> prefix ''<think>'' (c # cs)) \<and>
      (ci_prefix ''</think>'' (c # cs) \<longrightarrow> prefix ''</think>'' (c # cs)) \<and>
      lower_tags cs)"

text \<open>
  The first code unit of the pattern occurs nowhere else in it (up to letter case), so an
  occurrence of the pattern cannot begin before another one and run into it.
\<close>

definition leading_unique :: "string \<Rightarrow> bool" where
  "leading_unique pat \<longleftrightarrow>
     (\<forall>j. 0 < j \<and> j < length pat \<longrightarrow> canonicalize (pat ! j) \<noteq> canonicalize (pat ! 0))"

text \<open>
  The relation between the two buffers of a streaming turn: the rendered text is a prefix
  of the accumulated text, and is all of it exactly when the accumulated text is balanced.
\<close>

definition buffers_ok :: "Home \<Rightarrow> bool" where
  "buffers_ok st \<longleftrightarrow>
     prefix (renderedContent st) (fullContent st) \<and>
     (renderedContent st = fullContent st \<longleftrightarrow> isBalanced (fullContent st))"

declare exec_lit.simps [simp del] match_loop.simps [simp del] occurrences.simps [simp del]
declare exec_think.simps [simp del] think_loop.simps [simp del]

section \<open>The safety predicate counts delimiters\<close>

lemma occurrences_Nil: "occurrences d [] = 0"
  by (simp add: occurrences.simps)

lemma exec_lit_None:
  "pat \<noteq> [] \<Longrightarrow> i \<le> length md \<Longrightarrow> exec_lit pat md i = None \<Longrightarrow> occurrences pat (drop i md) = 0"
proof (induction pat md i rule: exec_lit.induct)
  case (1 pat md i)
  from "1.prems"(2,3) have np: "\<not> prefix pat (drop i md)"
    by (subst (asm) exec_lit.simps) (auto split: if_splits)
  show ?case
  proof (cases "i = length md")
    case True
    then show ?thesis by (simp add: occurrences_Nil)
  next
    case False
    with "1.prems" have lt: "i < length md" by simp
    from "1.prems"(3) np lt have "exec_lit pat md (Suc i) = None"
      by (subst (asm) exec_lit.simps) (auto split: if_splits)
    with "1.IH" np lt "1.prems"(1) have "occurrences pat (drop (Suc i) md) = 0"
      by simp
    with np lt "1.prems"(1) show ?thesis
      by (subst occurrences.simps) (simp add: drop_Suc tl_drop)
  qed
qed

lemma exec_lit_Some:
  "pat \<noteq> [] \<Longrightarrow> i \<le> length md \<Longrightarrow> exec_lit pat md i = Some j \<Longrightarrow>
     i \<le> j \<and> j + length pat \<le> length md \<and>
     occurrences pat (drop i md) = Suc (occurrences pat (drop (j + length pat) md))"
proof (induction pat md i rule: exec_lit.induct)
  case (1 pat md i)
  show ?case
  proof (cases "prefix pat (drop i md)")
    case True
    with "1.prems" have j: "j = i"
      by (subst (asm) exec_lit.simps) (auto split: if_splits)
    from True have "length pat \<le> length (drop i md)"
      by (rule prefix_length_le)
    with "1.prems" have len: "i + length pat \<le> length md" by simp
    from True "1.prems"(1) have ne: "drop i md \<noteq> []" by auto
    have "occurrences pat (drop i md) = Suc (occurrences pat (drop (length pat) (drop i md)))"
      using True ne "1.prems"(1) by (subst occurrences.simps) simp
    then show ?thesis using j len by (simp add: add.commute)
  next
    case False
    show ?thesis
    proof (cases "i = length md")
      case True
      with False "1.prems" show ?thesis
        by (subst (asm) exec_lit.simps, subst (asm) exec_lit.simps) (auto split: if_splits)
    next
      case neq: False
      with "1.prems" have lt: "i < length md" by simp
      from "1.prems"(3) False lt have "exec_lit pat md (Suc i) = Some j"
        by (subst (asm) exec_lit.simps) (auto split: if_splits)
      with "1.IH" False lt "1.prems"(1)
      have ih: "Suc i \<le> j \<and> j + length pat \<le> length md \<and>
         occurrences pat (drop (Suc i) md) = Suc (occurrences pat (drop (j + length pat) md))"
        by simp
      have "occurrences pat (drop i md) = occurrences pat (drop (Suc i) md)"
        using False lt "1.prems"(1) by (subst occurrences.simps) (simp add: drop_Suc tl_drop)
      with ih show ?thesis by simp
    qed
  qed
qed

lemma length_match_loop:
  "pat \<noteq> [] \<Longrightarrow> i \<le> length md \<Longrightarrow>
     length (match_loop pat md i A) = length A + occurrences pat (drop i md)"
proof (induction pat md i A rule: match_loop.induct)
  case (1 pat md i A)
  show ?case
  proof (cases "exec_lit pat md i")
    case None
    with "1.prems" show ?thesis
      by (subst match_loop.simps) (simp add: exec_lit_None)
  next
    case (Some j)
    from exec_lit_Some [OF "1.prems" Some]
    have b: "i \<le> j" "j + length pat \<le> length md"
      and o: "occurrences pat (drop i md) = Suc (occurrences pat (drop (j + length pat) md))"
      by simp_all
    from "1.IH" [OF Some] "1.prems"(1) b
    have "length (match_loop pat md (j + length pat) (A @ [pat])) =
            length (A @ [pat]) + occurrences pat (drop (j + length pat) md)"
      by simp
    with Some o "1.prems"(1) show ?thesis
      by (subst match_loop.simps) simp
  qed
qed

lemma length_match_g:
  "pat \<noteq> [] \<Longrightarrow> length (case match_g pat md of None \<Rightarrow> [] | Some A \<Rightarrow> A) = occurrences pat md"
  using length_match_loop [of pat 0 md "[]"] by (auto simp add: match_g_def Let_def)

text \<open>
  Claim C1. For every text the safety predicate holds if and only if the number of
  occurrences of the code-fence delimiter (three backticks) is even and the number of
  occurrences of the math-block delimiter (two dollar signs) is even.
\<close>

theorem isBalanced_iff_even_counts:
  "isBalanced T \<longleftrightarrow> even (occurrences ''```'' T) \<and> even (occurrences ''$$'' T)"
  by (simp add: isBalanced_def Let_def length_match_g even_iff_mod_2_eq_zero)

section \<open>The buffers of a streaming turn\<close>

lemma isBalanced_Nil: "isBalanced []"
  by code_simp

lemma fullContent_apply_delta: "fullContent (apply_delta d st) = fullContent st @ d"
  by (simp add: apply_delta_def Let_def)

lemma renderedContent_apply_delta:
  "renderedContent (apply_delta d st) =
     (if isBalanced (fullContent st @ d) then fullContent st @ d else renderedContent st)"
  by (simp add: apply_delta_def Let_def)

lemma buffers_ok_begin_turn: "buffers_ok (begin_turn st)"
  by (simp add: buffers_ok_def begin_turn_def isBalanced_Nil)

lemma buffers_ok_apply_delta:
  assumes "buffers_ok st"
  shows "buffers_ok (apply_delta d st)"
proof (cases "isBalanced (fullContent st @ d)")
  case True
  then show ?thesis
    by (simp add: buffers_ok_def fullContent_apply_delta renderedContent_apply_delta)
next
  case False
  from assms have p: "prefix (renderedContent st) (fullContent st)"
    and b: "renderedContent st = fullContent st \<longleftrightarrow> isBalanced (fullContent st)"
    by (simp_all add: buffers_ok_def)
  have "renderedContent st \<noteq> fullContent st @ d"
  proof
    assume e: "renderedContent st = fullContent st @ d"
    with p have "length (fullContent st @ d) \<le> length (fullContent st)"
      by (metis prefix_length_le)
    then have "d = []" by simp
    with e b False show False by simp
  qed
  with p False show ?thesis
    by (simp add: buffers_ok_def fullContent_apply_delta renderedContent_apply_delta)
qed

lemma buffers_ok_read_loop: "buffers_ok st \<Longrightarrow> buffers_ok (read_loop evs st)"
proof (induction evs arbitrary: st)
  case Nil
  then show ?case by simp
next
  case (Cons ev evs)
  then show ?case
    by (cases ev) (simp_all add: buffers_ok_apply_delta)
qed

lemma read_loop_deltas_append:
  "read_loop (map Delta (ds @ es)) st = read_loop (map Delta es) (read_loop (map Delta ds) st)"
  by (induction ds arbitrary: st) simp_all

lemma rendered_grows_apply_delta:
  "buffers_ok st \<Longrightarrow> length (renderedContent st) \<le> length (renderedContent (apply_delta d st))"
  by (auto simp: buffers_ok_def renderedContent_apply_delta dest: prefix_length_le)

lemma rendered_grows_read_loop:
  "buffers_ok st \<Longrightarrow>
     length (renderedContent st) \<le> length (renderedContent (read_loop (map Delta es) st))"
proof (induction es arbitrary: st)
  case Nil
  then show ?case by simp
next
  case (Cons d es)
  from Cons.prems have "length (renderedContent st) \<le> length (renderedContent (apply_delta d st))"
    by (rule rendered_grows_apply_delta)
  also from Cons.prems have "\<dots> \<le> length (renderedContent (read_loop (map Delta es) (apply_delta d st)))"
    by (intro Cons.IH buffers_ok_apply_delta)
  finally show ?case by simp
qed

text \<open>
  Claim C2. In a streaming turn, after each delta is processed the rendered (safe) buffer
  is a prefix of the full buffer, and the two are equal if and only if the full buffer is
  balanced; a delta appends its text to the full buffer, and the rendered buffer becomes
  the new full buffer when that is balanced and is left as it was otherwise. (This holds
  for all deltas, those with empty text included.)
\<close>

theorem safe_prefix_of_full:
  "prefix (renderedContent (read_loop (map Delta ds) (begin_turn st)))
          (fullContent (read_loop (map Delta ds) (begin_turn st))) \<and>
   (renderedContent (read_loop (map Delta ds) (begin_turn st)) =
      fullContent (read_loop (map Delta ds) (begin_turn st)) \<longleftrightarrow>
    isBalanced (fullContent (read_loop (map Delta ds) (begin_turn st)))) \<and>
   fullContent (read_loop (map Delta (ds @ [d])) (begin_turn st)) =
     fullContent (read_loop (map Delta ds) (begin_turn st)) @ d \<and>
   renderedContent (read_loop (map Delta (ds @ [d])) (begin_turn st)) =
     (if isBalanced (fullContent (read_loop (map Delta (ds @ [d])) (begin_turn st)))
      then fullContent (read_loop (map Delta (ds @ [d])) (begin_turn st))
      else renderedContent (read_loop (map Delta ds) (begin_turn st)))"
proof -
  have "buffers_ok (read_loop (map Delta ds) (begin_turn st))"
    by (intro buffers_ok_read_loop buffers_ok_begin_turn)
  moreover have "read_loop (map Delta (ds @ [d])) (begin_turn st) =
      apply_delta d (read_loop (map Delta ds) (begin_turn st))"
    by (simp only: read_loop_deltas_append) simp
  ultimately show ?thesis
    by (simp add: buffers_ok_def fullContent_apply_delta renderedContent_apply_delta)
qed

text \<open>
  Claim C3. Within one turn the length of the rendered (safe) buffer never decreases:
  after any further deltas it is at least as long as it was.
\<close>

theorem safe_length_monotone:
  "length (renderedContent (read_loop (map Delta ds) (begin_turn st)))
     \<le> length (renderedContent (read_loop (map Delta (ds @ es)) (begin_turn st)))"
  unfolding read_loop_deltas_append
  by (intro rendered_grows_read_loop buffers_ok_read_loop buffers_ok_begin_turn)

text \<open>
  Claim C4. At the end of a turn the final re-check is to set the rendered buffer to the
  latest full buffer when that is balanced. The code tests and assigns the value of
  \<open>fullContent\<close> that the closure captured when the turn began: in the second of two
  turns the full buffer ends as the balanced text \<open>Yo\<close>, and the rendered buffer ends as
  \<open>Hi\<close>, the reply of the turn before.
\<close>

theorem flush_reads_stale_fullContent:
  "fullContent (sendMessage (sendMessage initial ''hi'' (Some [Delta ''Hi'', Done]))
                  ''more'' (Some [Delta ''Yo'', Done])) = ''Yo'' \<and>
   isBalanced ''Yo'' \<and>
   renderedContent (sendMessage (sendMessage initial ''hi'' (Some [Delta ''Hi'', Done]))
                  ''more'' (Some [Delta ''Yo'', Done])) = ''Hi''"
  by code_simp

section \<open>The segmenter covers its input\<close>

lemma ci_prefix_length: "ci_prefix pat s \<Longrightarrow> length pat \<le> length s"
  by (auto simp: ci_prefix_def dest: prefix_length_le)

lemma ci_prefix_take: "ci_prefix pat s \<Longrightarrow> ci_equal (take (length pat) s) pat"
proof -
  assume "ci_prefix pat s"
  then obtain zs where "map canonicalize s = map canonicalize pat @ zs"
    by (auto simp: ci_prefix_def prefix_def)
  then have "take (length pat) (map canonicalize s) = map canonicalize pat"
    by simp
  then show ?thesis
    by (simp add: ci_equal_def take_map)
qed

lemma lazy_until_Some:
  "lazy_until pat s = Some k \<Longrightarrow> k \<le> length s \<and> ci_prefix pat (drop k s)"
  by (induction s arbitrary: k) (auto split: if_splits)

lemma think_at_Some:
  assumes "think_at s = Some (n, g)"
  shows "\<exists>otag ctag r. s = otag @ g @ ctag @ r \<and> n = length (otag @ g @ ctag) \<and>
           ci_equal otag ''<think>'' \<and> ci_equal ctag ''</think>''"
proof -
  from assms have op: "ci_prefix ''<think>'' s"
    by (auto simp: think_at_def split: if_splits)
  with assms obtain k where k: "lazy_until ''</think>'' (drop 7 s) = Some k"
    and n: "n = 7 + k + 8" and g: "g = take k (drop 7 s)"
    by (auto simp: think_at_def split: option.splits)
  from lazy_until_Some [OF k] have kl: "k \<le> length (drop 7 s)"
    and cl: "ci_prefix ''</think>'' (drop k (drop 7 s))"
    by simp_all
  let ?o = "take 7 s" and ?c = "take 8 (drop k (drop 7 s))" and ?r = "drop 8 (drop k (drop 7 s))"
  have s: "s = ?o @ g @ ?c @ ?r"
    unfolding g by (simp only: append_take_drop_id)
  from ci_prefix_length [OF op] have lo: "length ?o = 7" by simp
  from ci_prefix_length [OF cl] have lc: "length ?c = 8" by simp
  from kl have lg: "length g = k" by (simp add: g)
  have "n = length (?o @ g @ ?c)"
    using lo lc lg n by simp
  moreover have "length ''<think>'' = 7" "length ''</think>'' = 8"
    by simp_all
  with ci_prefix_take [OF op] ci_prefix_take [OF cl]
  have "ci_equal ?o ''<think>''" "ci_equal ?c ''</think>''"
    by metis+
  ultimately show ?thesis using s by blast
qed


lemma exec_think_Some:
  "exec_think md i = Some m \<Longrightarrow>
     i \<le> index m \<and> index m \<le> length md \<and>
     (\<exists>otag ctag r. drop (index m) md = otag @ m1 m @ ctag @ r \<and>
        m0 m = otag @ m1 m @ ctag \<and>
        ci_equal otag ''<think>'' \<and> ci_equal ctag ''</think>'')"
proof (induction md i rule: exec_think.induct)
  case (1 md i)
  from "1.prems" have le: "i \<le> length md"
    by (subst (asm) exec_think.simps) (auto split: if_splits)
  show ?case
  proof (cases "think_at (drop i md)")
    case None
    with "1.prems" le have "exec_think md (Suc i) = Some m"
      by (subst (asm) exec_think.simps) simp
    with "1.IH" None le show ?thesis
      by fastforce
  next
    case (Some r)
    obtain n g where r: "r = (n, g)" by (cases r)
    from "1.prems" le Some r have m: "m = \<lparr>index = i, m0 = take n (drop i md), m1 = g\<rparr>"
      by (subst (asm) exec_think.simps) simp
    from think_at_Some [OF Some [unfolded r]] obtain otag ctag r'
      where d: "drop i md = otag @ g @ ctag @ r'"
        and n: "n = length (otag @ g @ ctag)"
        and t: "ci_equal otag ''<think>''" "ci_equal ctag ''</think>''"
      by blast
    from d n have "take n (drop i md) = otag @ g @ ctag"
      by simp
    with m d t le show ?thesis
      by auto
  qed
qed

lemma reinsert_as_append:
  "length tags = length (filter isThink segs) \<Longrightarrow>
     reinsert_as (tags @ tags') (segs @ segs') = reinsert_as tags segs @ reinsert_as tags' segs'"
proof (induction segs arbitrary: tags)
  case Nil
  then show ?case by simp
next
  case (Cons seg segs)
  show ?case
  proof (cases "isThink seg")
    case True
    with Cons.prems obtain tag rest where tags: "tags = tag # rest"
      by (cases tags) auto
    obtain a b where tag: "tag = (a, b)" by (cases tag)
    from Cons.prems True tags have "length rest = length (filter isThink segs)"
      by simp
    from Cons.IH [OF this] True tags tag show ?thesis
      by simp
  next
    case False
    with Cons show ?thesis by simp
  qed
qed

lemma think_loop_cover:
  "i = l \<Longrightarrow> l \<le> length md \<Longrightarrow> think_loop md i l parts = (l', parts') \<Longrightarrow>
     \<exists>segs tags. parts' = parts @ segs \<and> length tags = length (filter isThink segs) \<and>
       list_all (tags_in md) tags \<and> l' \<le> length md \<and>
       reinsert_as tags segs @ drop l' md = drop l md \<and>
       (\<forall>seg \<in> set segs. \<not> isThink seg \<longrightarrow> content seg \<noteq> [])"
proof (induction md i l parts arbitrary: l' parts' rule: think_loop.induct)
  case (1 md i l parts)
  note il = \<open>i = l\<close>
  show ?case
  proof (cases "exec_think md l")
    case None
    with "1.prems" have "l' = l" "parts' = parts"
      by (subst (asm) think_loop.simps; simp)+
    with "1.prems"(2) show ?thesis
      by (intro exI [of _ "[]"]) simp
  next
    case (Some m)
    let ?e = "index m + length (m0 m)"
    let ?pl = "if l < index m then [\<lparr>content = slice md l (index m), isThink = False\<rparr>] else []"
    let ?parts1 = "(if l < index m
        then parts @ [\<lparr>content = slice md l (index m), isThink = False\<rparr>]
        else parts) @ [\<lparr>content = m1 m, isThink = True\<rparr>]"
    from exec_think_Some [OF Some] obtain otag ctag r
      where li: "l \<le> index m" and im: "index m \<le> length md"
        and d: "drop (index m) md = otag @ m1 m @ ctag @ r"
        and w: "m0 m = otag @ m1 m @ ctag"
        and t: "ci_equal otag ''<think>''" "ci_equal ctag ''</think>''"
      by blast
    have "length (drop (index m) md) = length (m0 m) + length r"
      by (simp add: d w)
    then have el: "?e \<le> length md"
      using im by simp
    have "drop ?e md = drop (length (m0 m)) (drop (index m) md)"
      by (simp add: add.commute)
    then have de: "drop ?e md = r"
      by (simp add: d w)
    from "1.prems"(3) Some il have "think_loop md ?e ?e ?parts1 = (l', parts')"
      by (subst (asm) think_loop.simps) simp
    from "1.IH" [OF Some [folded il] refl el this] obtain segs tags
      where p: "parts' = ?parts1 @ segs"
        and lt: "length tags = length (filter isThink segs)"
        and ok: "list_all (tags_in md) tags" and l': "l' \<le> length md"
        and re: "reinsert_as tags segs @ drop l' md = drop ?e md"
        and ne: "\<forall>seg \<in> set segs. \<not> isThink seg \<longrightarrow> content seg \<noteq> []"
      by blast
    let ?segs = "?pl @ [\<lparr>content = m1 m, isThink = True\<rparr>] @ segs"
    let ?tags = "(otag, ctag) # tags"
    have 1: "parts' = parts @ ?segs"
      using p by simp
    have 2: "length ?tags = length (filter isThink ?segs)"
      using lt by simp
    have "prefix otag (drop (index m) md)"
      by (simp add: d)
    moreover have "drop (index m + length (otag @ m1 m)) md = ctag @ r"
      using d by (metis append.assoc append_eq_conv_conj drop_drop add.commute)
    then have "prefix ctag (drop (index m + length (otag @ m1 m)) md)"
      by simp
    ultimately have "tags_in md (otag, ctag)"
      using t unfolding tags_in_def think_tags_def by (metis fst_conv snd_conv)
    then have 3: "list_all (tags_in md) ?tags"
      using ok by simp
    have "slice md l (index m) @ drop (index m) md = drop l md"
      using li by (metis slice_def add_diff_inverse_nat append_take_drop_id drop_drop
          add.commute not_less)
    then have "slice md l (index m) @ otag @ m1 m @ ctag @ reinsert_as tags segs @ drop l' md
                 = drop l md"
      using d de re by simp
    moreover have "l = index m \<Longrightarrow> slice md l (index m) = []"
      by (simp add: slice_def)
    ultimately have 4: "reinsert_as ?tags ?segs @ drop l' md = drop l md"
      using li by (cases "l < index m") auto
    have "l < index m \<Longrightarrow> slice md l (index m) \<noteq> []"
      using im by (simp add: slice_def)
    then have 5: "\<forall>seg \<in> set ?segs. \<not> isThink seg \<longrightarrow> content seg \<noteq> []"
      using ne by auto
    from 1 2 3 4 5 l' show ?thesis
      by blast
  qed
qed

lemma reinsert_as_lower:
  "list_all (\<lambda>tag. tag = (''<think>'', ''</think>'')) tags \<Longrightarrow> reinsert_as tags segs = reinsert segs"
proof (induction segs arbitrary: tags)
  case Nil
  then show ?case by simp
next
  case (Cons seg segs)
  have "reinsert_as [] segs = reinsert segs"
    by (rule Cons.IH) simp
  with Cons show ?case
    by (cases tags) auto
qed

lemma lower_tags_drop: "lower_tags md \<Longrightarrow> lower_tags (drop i md)"
proof (induction md arbitrary: i)
  case Nil
  then show ?case by simp
next
  case (Cons c cs)
  then show ?case by (cases i) simp_all
qed

lemma lower_tags_prefix:
  "lower_tags s \<Longrightarrow>
     (ci_prefix ''<think>'' s \<longrightarrow> prefix ''<think>'' s) \<and>
     (ci_prefix ''</think>'' s \<longrightarrow> prefix ''</think>'' s)"
  by (cases s) (auto simp: ci_prefix_def)

lemma ci_equal_length: "ci_equal a b \<Longrightarrow> length a = length b"
  unfolding ci_equal_def by (rule map_eq_imp_length_eq)

lemma ci_equal_prefix: "ci_equal a b \<Longrightarrow> prefix a s \<Longrightarrow> ci_prefix b s"
  unfolding ci_equal_def ci_prefix_def by (metis map_mono_prefix)

lemma prefix_same_length: "prefix a s \<Longrightarrow> prefix b s \<Longrightarrow> length a = length b \<Longrightarrow> a = b"
  by (metis prefix_order.eq_iff prefix_length_prefix order_refl)

lemma tags_in_lower:
  assumes "lower_tags md" "tags_in md tag"
  shows "tag = (''<think>'', ''</think>'')"
proof -
  obtain a b where tag: "tag = (a, b)" by (cases tag)
  from assms(2) tag obtain i k where a: "ci_equal a ''<think>''" "prefix a (drop i md)"
    and b: "ci_equal b ''</think>''" "prefix b (drop k md)"
    by (auto simp: tags_in_def think_tags_def)
  from lower_tags_prefix [OF lower_tags_drop [OF assms(1)], of i] ci_equal_prefix [OF a]
  have "prefix ''<think>'' (drop i md)" by simp
  with a have "a = ''<think>''"
    using ci_equal_length prefix_same_length by blast
  moreover
  from lower_tags_prefix [OF lower_tags_drop [OF assms(1)], of k] ci_equal_prefix [OF b]
  have "prefix ''</think>'' (drop k md)" by simp
  with b have "b = ''</think>''"
    using ci_equal_length prefix_same_length by blast
  ultimately show ?thesis using tag by simp
qed

lemma splitThinkBlocks_cover:
  "\<exists>tags. length tags = length (filter isThink (splitThinkBlocks md)) \<and>
     list_all (tags_in md) tags \<and> reinsert_as tags (splitThinkBlocks md) = md \<and>
     (\<forall>seg \<in> set (splitThinkBlocks md). \<not> isThink seg \<longrightarrow> content seg \<noteq> [])"
proof -
  obtain l' parts' where tl: "think_loop md 0 0 [] = (l', parts')"
    by (cases "think_loop md 0 0 []")
  from think_loop_cover [OF refl _ tl] obtain tags
    where lt: "length tags = length (filter isThink parts')"
      and ok: "list_all (tags_in md) tags" and l': "l' \<le> length md"
      and re: "reinsert_as tags parts' @ drop l' md = md"
      and ne: "\<forall>seg \<in> set parts'. \<not> isThink seg \<longrightarrow> content seg \<noteq> []"
    by auto
  let ?tail = "if l' < length md then [\<lparr>content = drop l' md, isThink = False\<rparr>] else []"
  have sp: "splitThinkBlocks md = parts' @ ?tail"
    by (simp add: splitThinkBlocks_def tl)
  have "reinsert_as (tags @ []) (parts' @ ?tail) = reinsert_as tags parts' @ reinsert_as [] ?tail"
    using lt by (rule reinsert_as_append)
  moreover have "reinsert_as [] ?tail = drop l' md"
    using l' by simp
  ultimately have "reinsert_as tags (splitThinkBlocks md) = md"
    using re sp by simp
  moreover have "length tags = length (filter isThink (splitThinkBlocks md))"
    using lt sp by simp
  moreover have "\<forall>seg \<in> set (splitThinkBlocks md). \<not> isThink seg \<longrightarrow> content seg \<noteq> []"
    using ne sp by auto
  ultimately show ?thesis using ok by blast
qed

text \<open>
  Claim C5, amended. For every blob the segments cover it in order, with no gap and no
  overlap: concatenating the segment contents in order, with an opening and a closing
  think tag put back around each think segment in the letter case in which the blob
  spells them, gives the blob back character for character. With the lower-case tags
  \<open><think>\<close> and \<open></think>\<close> put back, the blob is given back whenever every think tag
  in it is in lower case. (The tags are matched in any letter case and a segment does not
  keep their spelling.)
\<close>

theorem splitThinkBlocks_reconstructs: 
  "(\<exists>tags. length tags = length (filter isThink (splitThinkBlocks md)) \<and>
      list_all think_tags tags \<and> reinsert_as tags (splitThinkBlocks md) = md) \<and>
   (lower_tags md \<longrightarrow> reinsert (splitThinkBlocks md) = md)"
proof -
  from splitThinkBlocks_cover [of md] obtain tags
    where lt: "length tags = length (filter isThink (splitThinkBlocks md))"
      and ok: "list_all (tags_in md) tags"
      and re: "reinsert_as tags (splitThinkBlocks md) = md"
    by blast
  from ok have "list_all think_tags tags"
    by (simp add: list_all_iff tags_in_def)
  with lt re have first: "\<exists>tags. length tags = length (filter isThink (splitThinkBlocks md)) \<and>
      list_all think_tags tags \<and> reinsert_as tags (splitThinkBlocks md) = md"
    by blast
  have "reinsert (splitThinkBlocks md) = md" if "lower_tags md"
  proof -
    from ok that have "list_all (\<lambda>tag. tag = (''<think>'', ''</think>'')) tags"
      by (simp add: list_all_iff tags_in_lower)
    from reinsert_as_lower [OF this] re show ?thesis
      by simp
  qed
  with first show ?thesis by blast
qed

theorem splitThinkBlocks_reconstructs_witness:
  "lower_tags ''x<think>a</think>b'' \<and>
   reinsert (splitThinkBlocks ''x<think>a</think>b'') = ''x<think>a</think>b''"
proof -
  have "lower_tags ''x<think>a</think>b''"
    by code_simp
  with splitThinkBlocks_reconstructs [of "''x<think>a</think>b''"] show ?thesis
    by blast
qed

text \<open>
  The claim as it was stated fails on a blob whose tags are in upper case: the lower-case
  tags put back around the segment do not give the blob back.
\<close>

theorem upper_case_tags_not_reconstructed: "reinsert (splitThinkBlocks ''<THINK>a</THINK>'') \<noteq> ''<THINK>a</THINK>''"
  by code_simp

text \<open>
  Claim C10. Every segment that is not a think segment has content that is not empty; a
  think segment may be empty: the blob \<open><think></think>\<close> gives exactly one segment, a
  think segment with empty content.
\<close>

theorem plain_segments_nonempty:
  "(\<forall>seg \<in> set (splitThinkBlocks md). \<not> isThink seg \<longrightarrow> content seg \<noteq> []) \<and>
   splitThinkBlocks ''<think></think>'' = [\<lparr>content = [], isThink = True\<rparr>]"
proof -
  have "splitThinkBlocks ''<think></think>'' = [\<lparr>content = [], isThink = True\<rparr>]"
    by code_simp
  with splitThinkBlocks_cover [of md] show ?thesis
    by blast
qed

theorem plain_segments_nonempty_witness:
  "splitThinkBlocks ''a<think></think>'' =
     [\<lparr>content = ''a'', isThink = False\<rparr>, \<lparr>content = [], isThink = True\<rparr>] \<and>
   content (hd (splitThinkBlocks ''a<think></think>'')) \<noteq> []"
proof -
  have e: "splitThinkBlocks ''a<think></think>'' =
     [\<lparr>content = ''a'', isThink = False\<rparr>, \<lparr>content = [], isThink = True\<rparr>]"
    by code_simp
  from plain_segments_nonempty [of "''a<think></think>''"]
  have "\<forall>seg \<in> set (splitThinkBlocks ''a<think></think>''). \<not> isThink seg \<longrightarrow> content seg \<noteq> []"
    by blast
  with e show ?thesis
    by simp
qed

section \<open>The segmenter finds the think regions\<close>

lemma ci_prefix_nth:
  assumes "ci_prefix pat s" "j < length pat"
  shows "canonicalize (s ! j) = canonicalize (pat ! j)"
proof -
  from assms(1) obtain zs where e: "map canonicalize s = map canonicalize pat @ zs"
    by (auto simp: ci_prefix_def prefix_def)
  from ci_prefix_length [OF assms(1)] assms(2) have "j < length s"
    by simp
  then have "canonicalize (s ! j) = map canonicalize s ! j"
    by simp
  also have "\<dots> = canonicalize (pat ! j)"
    using assms(2) by (simp add: e nth_append)
  finally show ?thesis .
qed

lemma occurs_ci_drop: "occurs_ci pat (drop i s) \<Longrightarrow> occurs_ci pat s"
proof (induction s arbitrary: i)
  case Nil
  then show ?case by simp
next
  case (Cons c cs)
  then show ?case by (cases i) auto
qed

lemma ci_prefix_occurs: "ci_prefix pat s \<Longrightarrow> occurs_ci pat s"
  by (cases s) simp_all

lemma ci_prefix_within:
  "ci_prefix pat (xs @ ys) \<Longrightarrow> length pat \<le> length xs \<Longrightarrow> ci_prefix pat xs"
  unfolding ci_prefix_def
  using prefix_length_prefix [of "map canonicalize pat" "map canonicalize xs @ map canonicalize ys"
      "map canonicalize xs"]
  by simp

lemma no_tag_before:
  assumes no: "\<not> occurs_ci pat xs" and ys: "ci_prefix pat ys"
    and lu: "leading_unique pat" and ne: "pat \<noteq> []" and i: "i < length xs"
  shows "\<not> ci_prefix pat (drop i (xs @ ys))"
proof
  assume p: "ci_prefix pat (drop i (xs @ ys))"
  show False
  proof (cases "i + length pat \<le> length xs")
    case True
    from p i have "ci_prefix pat (drop i xs @ ys)"
      by simp
    from ci_prefix_within [OF this] True have "ci_prefix pat (drop i xs)"
      by simp
    then have "occurs_ci pat xs"
      using ci_prefix_occurs occurs_ci_drop by blast
    with no show False ..
  next
    case False
    let ?j = "length xs - i"
    from False i have j: "0 < ?j" "?j < length pat"
      by simp_all
    from ci_prefix_length [OF ys] ne have "ys \<noteq> []"
      by auto
    have "canonicalize (drop i (xs @ ys) ! ?j) = canonicalize (pat ! ?j)"
      using p j(2) by (rule ci_prefix_nth)
    moreover have "drop i (xs @ ys) ! ?j = ys ! 0"
      using i \<open>ys \<noteq> []\<close> by (simp add: nth_append)
    moreover have "canonicalize (ys ! 0) = canonicalize (pat ! 0)"
      using ys ne by (intro ci_prefix_nth) simp_all
    ultimately have "canonicalize (pat ! ?j) = canonicalize (pat ! 0)"
      by simp
    with lu j show False
      by (simp add: leading_unique_def)
  qed
qed

lemma leading_unique_open: "leading_unique ''<think>''"
proof -
  have "canonicalize (''<think>'' ! j) \<noteq> canonicalize (''<think>'' ! 0)" if "0 < j" "j < 7" for j
  proof -
    from that have "j = 1 \<or> j = 2 \<or> j = 3 \<or> j = 4 \<or> j = 5 \<or> j = 6"
      by arith
    then show ?thesis
      by (elim disjE; hypsubst) code_simp+
  qed
  then show ?thesis
    by (simp add: leading_unique_def)
qed

lemma leading_unique_close: "leading_unique ''</think>''"
proof -
  have "canonicalize (''</think>'' ! j) \<noteq> canonicalize (''</think>'' ! 0)" if "0 < j" "j < 8" for j
  proof -
    from that have "j = 1 \<or> j = 2 \<or> j = 3 \<or> j = 4 \<or> j = 5 \<or> j = 6 \<or> j = 7"
      by arith
    then show ?thesis
      by (elim disjE; hypsubst) code_simp+
  qed
  then show ?thesis
    by (simp add: leading_unique_def)
qed

lemma lazy_until_first:
  "(\<And>k. k < length xs \<Longrightarrow> \<not> ci_prefix pat (drop k (xs @ ys))) \<Longrightarrow> ci_prefix pat ys \<Longrightarrow>
     lazy_until pat (xs @ ys) = Some (length xs)"
proof (induction xs)
  case Nil
  then show ?case by (cases ys) simp_all
next
  case (Cons x xs)
  from Cons.prems(1) [of 0] have "\<not> ci_prefix pat (x # xs @ ys)"
    by simp
  moreover have "lazy_until pat (xs @ ys) = Some (length xs)"
  proof (rule Cons.IH)
    fix k assume "k < length xs"
    with Cons.prems(1) [of "Suc k"] show "\<not> ci_prefix pat (drop k (xs @ ys))"
      by simp
  qed (rule Cons.prems(2))
  ultimately show ?case by simp
qed

lemma lazy_until_None: "\<not> occurs_ci pat s \<Longrightarrow> lazy_until pat s = None"
  by (induction s) auto

lemma exec_think_skip:
  "(\<And>j. i \<le> j \<Longrightarrow> j < n \<Longrightarrow> think_at (drop j md) = None) \<Longrightarrow> i \<le> n \<Longrightarrow> n \<le> length md \<Longrightarrow>
     exec_think md i = exec_think md n"
proof (induction md i rule: exec_think.induct)
  case (1 md i)
  show ?case
  proof (cases "i = n")
    case True
    then show ?thesis by simp
  next
    case False
    with "1.prems" have lt: "i < n" by simp
    with "1.prems"(1) have none: "think_at (drop i md) = None" by simp
    from lt "1.prems"(3) have "\<not> length md < i" by simp
    moreover from this none have "exec_think md (Suc i) = exec_think md n"
      using "1.prems" lt by (intro "1.IH") simp_all
    ultimately show ?thesis
      using none by (subst exec_think.simps) simp
  qed
qed

lemma exec_think_never:
  "(\<And>j. think_at (drop j md) = None) \<Longrightarrow> exec_think md i = None"
proof (induction md i rule: exec_think.induct)
  case (1 md i)
  show ?case
  proof (cases "length md < i")
    case True
    then show ?thesis by (subst exec_think.simps) simp
  next
    case False
    moreover from this "1.prems" have "exec_think md (Suc i) = None"
      by (intro "1.IH") simp_all
    ultimately show ?thesis
      using "1.prems" [of i] by (subst exec_think.simps) simp
  qed
qed

lemma exec_think_shift:
  "exec_think (xs @ r) (length xs + i) =
     map_option (\<lambda>m. m\<lparr>index := length xs + index m\<rparr>) (exec_think r i)"
proof (induction r i rule: exec_think.induct)
  case (1 r i)
  show ?case
  proof (cases "length r < i")
    case True
    then show ?thesis
      by (simp add: exec_think.simps [of r i] exec_think.simps [of "xs @ r" "length xs + i"])
  next
    case False
    show ?thesis
    proof (cases "think_at (drop i r)")
      case None
      with False "1.IH" show ?thesis
        by (simp add: exec_think.simps [of r i] exec_think.simps [of "xs @ r" "length xs + i"])
    next
      case (Some a)
      with False show ?thesis
        by (cases a)
          (simp add: exec_think.simps [of r i] exec_think.simps [of "xs @ r" "length xs + i"])
    qed
  qed
qed

lemma think_loop_acc:
  "think_loop md i l (ps @ parts) = (case think_loop md i l parts of (l', segs) \<Rightarrow> (l', ps @ segs))"
proof (induction md i l parts arbitrary: ps rule: think_loop.induct)
  case (1 md i l parts)
  show ?case
  proof (cases "exec_think md i")
    case None
    then show ?thesis
      by (simp add: think_loop.simps [of md i l])
  next
    case (Some m)
    let ?new = "(if l < index m then [\<lparr>content = slice md l (index m), isThink = False\<rparr>] else [])
                @ [\<lparr>content = m1 m, isThink = True\<rparr>]"
    have "think_loop md (index m + length (m0 m)) (index m + length (m0 m)) (ps @ (parts @ ?new))
            = (case think_loop md (index m + length (m0 m)) (index m + length (m0 m)) (parts @ ?new)
               of (l', segs) \<Rightarrow> (l', ps @ segs))"
      using "1.IH" [OF Some, of ps] by (cases "l < index m") simp_all
    with Some show ?thesis
      by (cases "l < index m") (simp_all add: think_loop.simps [of md i l])
  qed
qed

lemma slice_shift: "slice (xs @ r) (length xs + a) (length xs + b) = slice r a b"
  by (simp add: slice_def)

lemma think_loop_shift:
  "think_loop (xs @ r) (length xs + i) (length xs + l) parts =
     (case think_loop r i l parts of (l', segs) \<Rightarrow> (length xs + l', segs))"
proof (induction r i l parts rule: think_loop.induct)
  case (1 r i l parts)
  show ?case
  proof (cases "exec_think r i")
    case None
    then show ?thesis
      by (simp add: think_loop.simps [of r i l] think_loop.simps [of "xs @ r" "length xs + i"]
          exec_think_shift)
  next
    case (Some m)
    from "1.IH" [OF Some] Some show ?thesis
      by (cases "l < index m")
        (simp_all add: think_loop.simps [of r i l] think_loop.simps [of "xs @ r" "length xs + i"]
          exec_think_shift slice_shift add.assoc)
  qed
qed

lemma ci_equal_ci_prefix: "ci_equal tag pat \<Longrightarrow> ci_prefix pat (tag @ s)"
  by (simp add: ci_equal_def ci_prefix_def)

lemma no_region_drop:
  "\<not> has_region md \<Longrightarrow>
     \<not> (ci_prefix ''<think>'' (drop j md) \<and> occurs_ci ''</think>'' (drop 7 (drop j md)))"
proof (induction md arbitrary: j)
  case Nil
  then show ?case by (simp add: ci_prefix_def)
next
  case (Cons c cs)
  show ?case
  proof (cases j)
    case 0
    with Cons.prems show ?thesis by simp
  next
    case (Suc k)
    from Cons.prems have "\<not> has_region cs" by simp
    from Cons.IH [OF this, of k] Suc show ?thesis by simp
  qed
qed

lemma no_closing_no_region: "\<not> occurs_ci ''</think>'' md \<Longrightarrow> \<not> has_region md"
proof (induction md)
  case Nil
  then show ?case by simp
next
  case (Cons c cs)
  from Cons.prems have "\<not> occurs_ci ''</think>'' (drop 7 (c # cs))"
    using occurs_ci_drop by blast
  moreover from Cons.prems have "\<not> occurs_ci ''</think>'' cs"
    using occurs_ci_drop [of "''</think>''" 1 "c # cs"] by auto
  ultimately show ?case
    using Cons.IH by simp
qed

lemma split_unterminated:
  assumes "\<not> has_region md"
  shows "splitThinkBlocks md = (if md = [] then [] else [\<lparr>content = md, isThink = False\<rparr>])"
proof -
  have "think_at (drop j md) = None" for j
  proof (cases "ci_prefix ''<think>'' (drop j md)")
    case True
    with no_region_drop [OF assms, of j] have "\<not> occurs_ci ''</think>'' (drop 7 (drop j md))"
      by simp
    then show ?thesis
      by (simp add: think_at_def lazy_until_None)
  next
    case False
    then show ?thesis
      by (simp add: think_at_def)
  qed
  then have "exec_think md 0 = None"
    by (rule exec_think_never)
  then have "think_loop md 0 0 [] = (0, [])"
    by (simp add: think_loop.simps [of md 0 0])
  then show ?thesis
    by (simp add: splitThinkBlocks_def)
qed

lemma think_at_matched:
  assumes o: "ci_equal otag ''<think>''" and inn: "\<not> occurs_ci ''</think>'' inner"
    and c: "ci_equal ctag ''</think>''"
  shows "think_at (otag @ inner @ ctag @ rest) = Some (length (otag @ inner @ ctag), inner)"
proof -
  from ci_equal_length [OF o] have lo: "length otag = 7" by simp
  from ci_equal_length [OF c] have lc: "length ctag = 8" by simp
  have cp: "ci_prefix ''</think>'' (ctag @ rest)"
    using c by (rule ci_equal_ci_prefix)
  have "lazy_until ''</think>'' (inner @ ctag @ rest) = Some (length inner)"
  proof (rule lazy_until_first)
    fix k assume "k < length inner"
    with inn cp leading_unique_close show "\<not> ci_prefix ''</think>'' (drop k (inner @ ctag @ rest))"
      by (intro no_tag_before) simp_all
  qed (rule cp)
  moreover have "ci_prefix ''<think>'' (otag @ inner @ ctag @ rest)"
    using o by (rule ci_equal_ci_prefix)
  ultimately show ?thesis
    using lo lc by (simp add: think_at_def)
qed

lemma split_matched:
  assumes pre: "\<not> occurs_ci ''<think>'' pre" and o: "ci_equal otag ''<think>''"
    and inn: "\<not> occurs_ci ''</think>'' inner" and c: "ci_equal ctag ''</think>''"
  shows "splitThinkBlocks (pre @ otag @ inner @ ctag @ rest) =
           (if pre = [] then [] else [\<lparr>content = pre, isThink = False\<rparr>])
           @ \<lparr>content = inner, isThink = True\<rparr> # splitThinkBlocks rest"
proof -
  let ?w = "otag @ inner @ ctag"
  let ?md = "pre @ otag @ inner @ ctag @ rest"
  let ?e = "length pre + length ?w"
  let ?parts = "(if pre = [] then [] else [\<lparr>content = pre, isThink = False\<rparr>])
                @ [\<lparr>content = inner, isThink = True\<rparr>]"
  have op: "ci_prefix ''<think>'' (otag @ inner @ ctag @ rest)"
    using o by (rule ci_equal_ci_prefix)
  have at: "think_at (drop (length pre) ?md) = Some (length ?w, inner)"
    using think_at_matched [OF o inn c, of rest] by simp
  have "exec_think ?md 0 = exec_think ?md (length pre)"
  proof (rule exec_think_skip)
    fix j assume "j < length pre"
    with pre op leading_unique_open
    have "\<not> ci_prefix ''<think>'' (drop j (pre @ otag @ inner @ ctag @ rest))"
      by (intro no_tag_before) simp_all
    then show "think_at (drop j ?md) = None"
      by (simp add: think_at_def)
  qed simp_all
  also have "\<dots> = Some \<lparr>index = length pre, m0 = ?w, m1 = inner\<rparr>"
    using at by (simp add: exec_think.simps [of ?md "length pre"])
  finally have ex: "exec_think ?md 0 = Some \<lparr>index = length pre, m0 = ?w, m1 = inner\<rparr>" .
  have "slice ?md 0 (length pre) = pre"
    by (simp add: slice_def)
  with ex have "think_loop ?md 0 0 [] = think_loop ?md ?e ?e ?parts"
    by (simp add: think_loop.simps [of ?md 0 0])
  also have "\<dots> = think_loop ((pre @ ?w) @ rest) (length (pre @ ?w) + 0) (length (pre @ ?w) + 0) ?parts"
    by simp
  also have "\<dots> = (case think_loop rest 0 0 ?parts of (l', segs) \<Rightarrow> (length (pre @ ?w) + l', segs))"
    by (rule think_loop_shift)
  also have "think_loop rest 0 0 ?parts = (case think_loop rest 0 0 [] of (l', segs) \<Rightarrow> (l', ?parts @ segs))"
    using think_loop_acc [of rest 0 0 ?parts "[]"] by simp
  finally have "think_loop ?md 0 0 [] =
      (case think_loop rest 0 0 [] of (l', segs) \<Rightarrow> (?e + l', ?parts @ segs))"
    by (simp add: split_def)
  moreover have "drop (?e + l') ?md = drop l' rest" for l'
    by (simp add: add.commute)
  ultimately show ?thesis
    by (simp add: splitThinkBlocks_def split_def)
qed

text \<open>
  Claim C6. The blob \<open><think>reasoning</think>answer\<close> gives exactly the think segment
  \<open>reasoning\<close> followed by the plain segment \<open>answer\<close>. A blob in which no opening
  tag has a closing tag after it (every \<open><think>\<close> in it is unterminated; closing tags
  may stand before) is one plain segment, or no segment when it is empty; so is, in
  particular, a blob without any closing tag. Where the blob begins with a text without an opening tag, then an opening
  tag in any letter case, then an interior without a closing tag, then a closing tag in
  any letter case, the segmenter gives the text before the opening tag as a plain segment
  (if it is not empty), the interior as a think segment with the tags stripped, and then
  the segments of the rest: the leftmost opening tag is matched with the first closing
  tag after it.
\<close>

theorem splitThinkBlocks_think_regions:
  "splitThinkBlocks ''<think>reasoning</think>answer'' =
     [\<lparr>content = ''reasoning'', isThink = True\<rparr>, \<lparr>content = ''answer'', isThink = False\<rparr>] \<and>
   (\<not> has_region md \<longrightarrow>
      splitThinkBlocks md = (if md = [] then [] else [\<lparr>content = md, isThink = False\<rparr>])) \<and>
   (\<not> occurs_ci ''</think>'' md \<longrightarrow> \<not> has_region md) \<and>
   (\<not> occurs_ci ''<think>'' pre \<and> ci_equal otag ''<think>'' \<and>
    \<not> occurs_ci ''</think>'' inner \<and> ci_equal ctag ''</think>'' \<longrightarrow>
      splitThinkBlocks (pre @ otag @ inner @ ctag @ rest) =
        (if pre = [] then [] else [\<lparr>content = pre, isThink = False\<rparr>])
        @ \<lparr>content = inner, isThink = True\<rparr> # splitThinkBlocks rest)"
proof -
  have "splitThinkBlocks ''<think>reasoning</think>answer'' =
     [\<lparr>content = ''reasoning'', isThink = True\<rparr>, \<lparr>content = ''answer'', isThink = False\<rparr>]"
    by code_simp
  with split_unterminated [of md] no_closing_no_region [of md]
    split_matched [of pre otag inner ctag rest]
  show ?thesis
    by blast
qed

theorem splitThinkBlocks_think_regions_witness:
  "\<not> has_region ''x</think>y<think>z'' \<and>
   splitThinkBlocks ''x</think>y<think>z'' =
     [\<lparr>content = ''x</think>y<think>z'', isThink = False\<rparr>] \<and>
   \<not> occurs_ci ''</think>'' ''<think>reason'' \<and> \<not> has_region ''<think>reason'' \<and>
   \<not> occurs_ci ''<think>'' ''x'' \<and> ci_equal ''<THINK>'' ''<think>'' \<and>
   \<not> occurs_ci ''</think>'' ''a<think>b'' \<and> ci_equal ''</Think>'' ''</think>'' \<and>
   splitThinkBlocks (''x'' @ ''<THINK>'' @ ''a<think>b'' @ ''</Think>'' @ ''y</think>z<think>w'') =
     [\<lparr>content = ''x'', isThink = False\<rparr>, \<lparr>content = ''a<think>b'', isThink = True\<rparr>,
      \<lparr>content = ''y</think>z<think>w'', isThink = False\<rparr>]"
proof -
  have h1: "\<not> has_region ''x</think>y<think>z''"
    by code_simp
  have h2: "\<not> occurs_ci ''</think>'' ''<think>reason''"
    by code_simp
  have h3: "\<not> occurs_ci ''<think>'' ''x'' \<and> ci_equal ''<THINK>'' ''<think>'' \<and>
    \<not> occurs_ci ''</think>'' ''a<think>b'' \<and> ci_equal ''</Think>'' ''</think>''"
    by code_simp
  have h4: "\<not> has_region ''y</think>z<think>w''"
    by code_simp
  have r: "splitThinkBlocks ''y</think>z<think>w'' =
      [\<lparr>content = ''y</think>z<think>w'', isThink = False\<rparr>]"
    using splitThinkBlocks_think_regions [of "''y</think>z<think>w''"] h4 by simp
  from splitThinkBlocks_think_regions [of "''x</think>y<think>z''"] h1
  have a: "splitThinkBlocks ''x</think>y<think>z'' =
      [\<lparr>content = ''x</think>y<think>z'', isThink = False\<rparr>]"
    by simp
  from splitThinkBlocks_think_regions [of "''<think>reason''"] h2
  have b: "\<not> has_region ''<think>reason''"
    by blast
  from splitThinkBlocks_think_regions
      [of md "''x''" "''<THINK>''" "''a<think>b''" "''</Think>''" "''y</think>z<think>w''" for md]
    h3 r
  have c: "splitThinkBlocks (''x'' @ ''<THINK>'' @ ''a<think>b'' @ ''</Think>'' @ ''y</think>z<think>w'') =
     [\<lparr>content = ''x'', isThink = False\<rparr>, \<lparr>content = ''a<think>b'', isThink = True\<rparr>,
      \<lparr>content = ''y</think>z<think>w'', isThink = False\<rparr>]"
    by simp
  from h1 a h2 b h3 c show ?thesis
    by blast
qed

section \<open>The relay\<close>

lemma written_for_await:
  "written (for_await parts res) = written res @ [Delta t. Some t \<leftarrow> parts, t \<noteq> []]"
  by (induction parts arbitrary: res) (auto simp: res_write_def split: option.splits)

lemma ended_for_await: "ended (for_await parts res) = ended res"
  by (induction parts arbitrary: res) (auto simp: res_write_def split: option.splits)

lemma written_handler:
  "req_method req = Some ''POST'' \<Longrightarrow>
     written (handler req create) =
       (case create (messages req) of
          CreateThrows \<Rightarrow> [Error ''OpenAI API error'']
        | Stream parts ending \<Rightarrow>
            [Delta t. Some t \<leftarrow> parts, t \<noteq> []]
            @ [case ending of Exhausted \<Rightarrow> Done | Throws \<Rightarrow> Error ''OpenAI API error''])"
  by (simp add: handler_def Let_def catch_block_def res_write_def written_for_await fresh_def
      split: Upstream.splits Ending.splits)

lemma ended_handler: "ended (handler req create)"
  by (simp add: handler_def Let_def catch_block_def res_write_def ended_for_await fresh_def
      split: Upstream.splits Ending.splits)

lemma no_terminal_deltas: "filter is_terminal [Delta t. Some t \<leftarrow> parts, t \<noteq> []] = []"
  by (induction parts) (auto split: option.splits)

text \<open>
  Claim C7. For a POST request the relay writes one delta event for each part of the
  upstream stream whose text is not empty, in order and with exactly that text; when the
  stream is exhausted it then writes the end-of-stream event; when opening the stream or
  reading it fails it writes a single error event with the message
  \<open>OpenAI API error\<close> (after the deltas already written); in each case it then ends the
  response.
\<close>

theorem relay_events:
  "req_method req = Some ''POST'' \<Longrightarrow>
     written (handler req create) =
       (case create (messages req) of
          CreateThrows \<Rightarrow> [Error ''OpenAI API error'']
        | Stream parts ending \<Rightarrow>
            [Delta t. Some t \<leftarrow> parts, t \<noteq> []]
            @ [case ending of Exhausted \<Rightarrow> Done | Throws \<Rightarrow> Error ''OpenAI API error'']) \<and>
     ended (handler req create)"
  by (simp add: written_handler ended_handler)

theorem relay_events_witness:
  "req_method \<lparr>req_method = Some ''POST'', messages = []\<rparr> = Some ''POST'' \<and>
   written (handler \<lparr>req_method = Some ''POST'', messages = []\<rparr>
      (\<lambda>ms. Stream [Some ''Hel'', None, Some [], Some ''lo''] Exhausted)) =
     [Delta ''Hel'', Delta ''lo'', Done] \<and>
   written (handler \<lparr>req_method = Some ''POST'', messages = []\<rparr>
      (\<lambda>ms. Stream [Some ''Hel''] Throws)) = [Delta ''Hel'', Error ''OpenAI API error''] \<and>
   written (handler \<lparr>req_method = Some ''POST'', messages = []\<rparr> (\<lambda>ms. CreateThrows)) =
     [Error ''OpenAI API error'']"
  using relay_events [of "\<lparr>req_method = Some ''POST'', messages = []\<rparr>"
                "\<lambda>ms. Stream [Some ''Hel'', None, Some [], Some ''lo''] Exhausted"]
    relay_events [of "\<lparr>req_method = Some ''POST'', messages = []\<rparr>" "\<lambda>ms. Stream [Some ''Hel''] Throws"]
    relay_events [of "\<lparr>req_method = Some ''POST'', messages = []\<rparr>" "\<lambda>ms. CreateThrows"]
  by simp

text \<open>
  Claim C8. The stream the relay writes for a POST request holds exactly one terminal
  event (end-of-stream or error), that event is the last one written, and the response is
  ended after it.
\<close>

theorem relay_one_terminal_last:
  "req_method req = Some ''POST'' \<Longrightarrow>
     written (handler req create) \<noteq> [] \<and>
     is_terminal (last (written (handler req create))) \<and>
     length (filter is_terminal (written (handler req create))) = 1 \<and>
     ended (handler req create)"
  by (simp add: written_handler ended_handler no_terminal_deltas
      split: Upstream.splits Ending.splits)

theorem relay_one_terminal_last_witness:
  "req_method \<lparr>req_method = Some ''POST'', messages = []\<rparr> = Some ''POST'' \<and>
   length (filter is_terminal (written (handler \<lparr>req_method = Some ''POST'', messages = []\<rparr>
      (\<lambda>ms. Stream [Some ''a'', Some ''b''] Throws)))) = 1 \<and>
   is_terminal (last (written (handler \<lparr>req_method = Some ''POST'', messages = []\<rparr>
      (\<lambda>ms. Stream [Some ''a'', Some ''b''] Throws))))"
  using relay_one_terminal_last [of "\<lparr>req_method = Some ''POST'', messages = []\<rparr>" "\<lambda>ms. Stream [Some ''a'', Some ''b''] Throws"]
  by simp

text \<open>
  Claim C9. A request whose method is not POST is answered with status 405 and the header
  \<open>Allow: POST\<close>; the provider is not called and no frame is written.
\<close>

theorem relay_rejects_non_POST:
  "req_method req \<noteq> Some ''POST'' \<Longrightarrow>
     statusCode (handler req create) = 405 \<and>
     headers (handler req create) ''Allow'' = Some [''POST''] \<and>
     create_calls (handler req create) = 0 \<and>
     written (handler req create) = [] \<and>
     ended (handler req create)"
  by (simp add: handler_def fresh_def)

theorem relay_rejects_non_POST_witness:
  "req_method \<lparr>req_method = Some ''GET'', messages = []\<rparr> \<noteq> Some ''POST'' \<and>
   statusCode (handler \<lparr>req_method = Some ''GET'', messages = []\<rparr> (\<lambda>ms. Stream [Some ''a''] Exhausted)) = 405 \<and>
   create_calls (handler \<lparr>req_method = Some ''GET'', messages = []\<rparr> (\<lambda>ms. Stream [Some ''a''] Exhausted)) = 0"
  using relay_rejects_non_POST [of "\<lparr>req_method = Some ''GET'', messages = []\<rparr>" "\<lambda>ms. Stream [Some ''a''] Exhausted"]
  by simp

end
